theory Spec2Isabelle
  imports Main
begin

section \<open>JavaScript strings\<close>

text \<open>
  The tools work on JavaScript strings. A string is modelled as a list of code units
  below 256 (the Latin-1 part of UTF-16), one \<^typ>\<open>char\<close> each: every pattern and
  every constant of the source is ASCII, and inside this range \<open>toLowerCase\<close>,
  \<open>trim\<close>, \<open>split\<close> and the regular expressions are closed: they produce no
  code unit above 255, and \<open>toLowerCase\<close> maps one code unit to one code unit.
  Strings with a code unit above 255 are outside the model.
\<close>

definition toLowerCase_char :: "char \<Rightarrow> char" where
  "toLowerCase_char c =
     (let n = (of_char c :: nat)
      in if (65 \<le> n \<and> n \<le> 90) \<or> (192 \<le> n \<and> n \<le> 222 \<and> n \<noteq> 215)
         then char_of (n + 32) else c)"

definition toLowerCase :: "string \<Rightarrow> string" where
  "toLowerCase s = map toLowerCase_char s"

text \<open>
  \<open>Canonicalize\<close> of a regular expression with the \<open>i\<close> flag (and without \<open>u\<close>):
  the upper-case form of the code unit. The two Latin-1 letters whose upper-case form lies
  outside Latin-1 (\<open>0xB5\<close>, \<open>0xFF\<close>) and \<open>0xDF\<close> (whose upper-case form is two
  code units) are equivalent to no other code unit below 256 and stand for themselves.
\<close>

definition canonicalize :: "char \<Rightarrow> char" where
  "canonicalize c =
     (let n = (of_char c :: nat)
      in if (97 \<le> n \<and> n \<le> 122) \<or> (224 \<le> n \<and> n \<le> 254 \<and> n \<noteq> 247)
         then char_of (n - 32) else c)"

text \<open>White space of \<open>\s\<close> and of \<open>trim\<close>: TAB, LF, VT, FF, CR, SP, NBSP.\<close>

definition is_space :: "char \<Rightarrow> bool" where
  "is_space c = (c \<in> set [CHR 0x09, CHR 0x0A, CHR 0x0B, CHR 0x0C, CHR 0x0D, CHR 0x20, CHR 0xA0])"

text \<open>The class \<open>\w\<close>: \<open>[A-Za-z0-9_]\<close>.\<close>

definition is_word :: "char \<Rightarrow> bool" where
  "is_word c =
     (c \<in> set ''abcdefghijklmnopqrstuvwxyzABCDEFGHIJKLMNOPQRSTUVWXYZ0123456789_'')"

definition trim :: "string \<Rightarrow> string" where
  "trim s = rev (dropWhile is_space (rev (dropWhile is_space s)))"

text \<open>\<open>s.split(',')\<close>: never empty, \<open>''.split(',')\<close> is \<open>['']\<close>.\<close>

fun split :: "char \<Rightarrow> string \<Rightarrow> string list" where
  "split d [] = [[]]"
| "split d (c # cs) =
     (if c = d then [] # split d cs
      else (case split d cs of [] \<Rightarrow> [[c]] | x # xs \<Rightarrow> (c # x) # xs))"

text \<open>\<open>xs.join(sep)\<close>.\<close>

fun join :: "string \<Rightarrow> string list \<Rightarrow> string" where
  "join sep [] = []"
| "join sep [x] = x"
| "join sep (x # y # ys) = x @ sep @ join sep (y # ys)"

text \<open>\<open>s.startsWith(p)\<close> and \<open>s.includes(p)\<close>.\<close>

definition startsWith :: "string \<Rightarrow> string \<Rightarrow> bool" where
  "startsWith s p = (take (length p) s = p)"

fun includes_str :: "string \<Rightarrow> string \<Rightarrow> bool" where
  "includes_str [] p = (p = [])"
| "includes_str (c # cs) p = (startsWith (c # cs) p \<or> includes_str cs p)"

section \<open>Regular expressions\<close>

text \<open>
  The regular expressions of the source are built from single code units, character
  classes, \<open>+\<close> and \<open>+?\<close> on a character class, sequence, alternative, one capture
  group, \<open>^\<close>, \<open>$\<close> and \<open>\b\<close>. A matcher state is the input split at the current
  position (the part before it, reversed, and the part after it) and the text of the
  capture group. \<open>rx_run\<close> lists the states in which a match of the expression can
  end, in the order in which the backtracking matcher of ECMAScript tries them: the match it
  returns is the first of the list.
\<close>

datatype rx =
    Sym "char \<Rightarrow> bool"
  | Plus "char \<Rightarrow> bool"
  | PlusLazy "char \<Rightarrow> bool"
  | Seq rx rx
  | Alt rx rx
  | Grp rx
  | Eps
  | Bos
  | Eos
  | WordB

type_synonym rx_state = "string \<times> string \<times> string option"

definition word_at :: "string \<Rightarrow> bool" where
  "word_at xs = (case xs of [] \<Rightarrow> False | c # _ \<Rightarrow> is_word c)"

fun rx_run :: "rx \<Rightarrow> rx_state \<Rightarrow> rx_state list" where
  "rx_run (Sym p) (l, r, g) =
     (case r of [] \<Rightarrow> [] | c # r' \<Rightarrow> if p c then [(c # l, r', g)] else [])"
| "rx_run (Plus p) (l, r, g) =
     map (\<lambda>k. (rev (take k r) @ l, drop k r, g)) (rev [1 ..< Suc (length (takeWhile p r))])"
| "rx_run (PlusLazy p) (l, r, g) =
     map (\<lambda>k. (rev (take k r) @ l, drop k r, g)) [1 ..< Suc (length (takeWhile p r))]"
| "rx_run (Seq a b) st = concat (map (rx_run b) (rx_run a st))"
| "rx_run (Alt a b) st = rx_run a st @ rx_run b st"
| "rx_run (Grp a) (l, r, g) =
     map (\<lambda>(l', r', _). (l', r', Some (rev (take (length l' - length l) l'))))
       (rx_run a (l, r, g))"
| "rx_run Eps st = [st]"
| "rx_run Bos (l, r, g) = (if l = [] then [(l, r, g)] else [])"
| "rx_run Eos (l, r, g) = (if r = [] then [(l, r, g)] else [])"
| "rx_run WordB (l, r, g) = (if word_at l \<noteq> word_at r then [(l, r, g)] else [])"

text \<open>A literal code unit and a character class under the \<open>i\<close> flag.\<close>

definition ci :: "char \<Rightarrow> char \<Rightarrow> bool" where
  "ci a c = (canonicalize c = canonicalize a)"

definition one_of :: "string \<Rightarrow> char \<Rightarrow> bool" where
  "one_of cs c = (\<exists>a \<in> set cs. ci a c)"

definition none_of :: "string \<Rightarrow> char \<Rightarrow> bool" where
  "none_of cs c = (\<not> one_of cs c)"

fun lit :: "string \<Rightarrow> rx" where
  "lit [] = Eps"
| "lit (a # as) = Seq (Sym (ci a)) (lit as)"

fun seqs :: "rx list \<Rightarrow> rx" where
  "seqs [] = Eps"
| "seqs (e # es) = Seq e (seqs es)"

record rx_match =
  before :: string
  matched :: string
  after :: string
  group1 :: "string option"

text \<open>
  \<open>RegExpBuiltinExec\<close> without the \<open>g\<close> flag: the first position, from the left, at
  which the expression matches, and the first match there.
\<close>

fun rx_search :: "rx \<Rightarrow> string \<Rightarrow> string \<Rightarrow> rx_match option" where
  "rx_search e l [] =
     (case rx_run e (l, [], None) of
        [] \<Rightarrow> None
      | (l', r', g) # _ \<Rightarrow>
          Some \<lparr>before = rev l, matched = rev (take (length l' - length l) l'),
                after = r', group1 = g\<rparr>)"
| "rx_search e l (c # r) =
     (case rx_run e (l, c # r, None) of
        [] \<Rightarrow> rx_search e (c # l) r
      | (l', r', g) # _ \<Rightarrow>
          Some \<lparr>before = rev l, matched = rev (take (length l' - length l) l'),
                after = r', group1 = g\<rparr>)"

definition rx_exec :: "rx \<Rightarrow> string \<Rightarrow> rx_match option" where
  "rx_exec e s = rx_search e [] s"

definition rx_test :: "rx \<Rightarrow> string \<Rightarrow> bool" where
  "rx_test e s = (rx_exec e s \<noteq> None)"

text \<open>
  \<open>s.replace(e, template)\<close> for an expression without the \<open>g\<close> flag: the first match
  is replaced by the expansion of the template (\<open>GetSubstitution\<close>). None of the
  expressions the source passes to \<open>replace\<close> has a capture group, so \<open>$1\<close> to
  \<open>$99\<close> stand for themselves; \<open>$$\<close>, \<open>$&\<close>, \<open>$`\<close> and \<open>$'\<close> are expanded.
\<close>

fun getSubstitution :: "rx_match \<Rightarrow> string \<Rightarrow> string" where
  "getSubstitution m (c # d # t) =
     (if c = CHR ''$'' \<and> d = CHR ''$'' then CHR ''$'' # getSubstitution m t
      else if c = CHR ''$'' \<and> d = CHR ''&'' then matched m @ getSubstitution m t
      else if c = CHR ''$'' \<and> d = CHR 0x60 then before m @ getSubstitution m t
      else if c = CHR ''$'' \<and> d = CHR 0x27 then after m @ getSubstitution m t
      else c # getSubstitution m (d # t))"
| "getSubstitution m t = t"

definition rx_replace :: "rx \<Rightarrow> string \<Rightarrow> string \<Rightarrow> string" where
  "rx_replace e template s =
     (case rx_exec e s of
        None \<Rightarrow> s
      | Some m \<Rightarrow> before m @ getSubstitution m template @ after m)"

text \<open>
  \<open>s.replace(e, '')\<close> for an expression with the \<open>g\<close> flag: every match, found from
  the left after the end of the one before, is removed. The last argument counts the
  code units of the current match that are still to be dropped; after an empty match the
  search goes on one code unit further.
\<close>

fun rx_remove_all :: "rx \<Rightarrow> string \<Rightarrow> string \<Rightarrow> nat \<Rightarrow> string" where
  "rx_remove_all e l [] k = []"
| "rx_remove_all e l (c # r) k =
     (if 0 < k then rx_remove_all e (c # l) r (k - 1)
      else (case rx_run e (l, c # r, None) of
              [] \<Rightarrow> c # rx_remove_all e (c # l) r 0
            | (l', _, _) # _ \<Rightarrow>
                (if length l' - length l = 0 then c # rx_remove_all e (c # l) r 0
                 else rx_remove_all e (c # l) r (length l' - length l - 1))))"

section \<open>The column policy and its expressions\<close>

definition FORBIDDEN_COLUMNS :: "string list" where
  "FORBIDDEN_COLUMNS = [''content'', ''body'', ''full_text'', ''html'', ''raw_content'']"

text \<open>The fallback projection of the execution tool, and the one of the generation tool.\<close>

definition ALLOWED_COLUMNS :: "string list" where
  "ALLOWED_COLUMNS = [''id'', ''title'', ''slug'', ''symbol'', ''url'', ''published_at'']"

definition ALLOWED_COLUMNS_gen :: "string list" where
  "ALLOWED_COLUMNS_gen = [''id'', ''title'', ''slug'', ''symbols'', ''url'', ''published_at'']"

definition NEWS_TABLE_NAME :: string where
  "NEWS_TABLE_NAME = ''news''"

definition word_or_dot :: "char \<Rightarrow> bool" where
  "word_or_dot c = (is_word c \<or> c = CHR ''.'')"

definition is_quote :: "char \<Rightarrow> bool" where
  "is_quote c = (c = CHR 0x22 \<or> c = CHR 0x27)"

text \<open>\<^verbatim>\<open>/select\s+([^from]+?)\s+from/i\<close>\<close>

definition re_select_from :: rx where
  "re_select_from =
     seqs [lit ''select'', Plus is_space, Grp (PlusLazy (none_of ''from'')), Plus is_space,
           lit ''from'']"

text \<open>\<^verbatim>\<open>/select\s+[^from]+?\s+from/i\<close>, the expression of the final \<open>replace\<close>.\<close>

definition re_select_from_span :: rx where
  "re_select_from_span =
     seqs [lit ''select'', Plus is_space, PlusLazy (none_of ''from''), Plus is_space,
           lit ''from'']"

text \<open>\<^verbatim>\<open>/from\s+([\w.]+)/i\<close>\<close>

definition re_from_table :: rx where
  "re_from_table = seqs [lit ''from'', Plus is_space, Grp (Plus word_or_dot)]"

text \<open>\<^verbatim>\<open>new RegExp(`\\b${col}\\b`, 'i')\<close>\<close>

definition re_column :: "string \<Rightarrow> rx" where
  "re_column col = seqs [WordB, lit col, WordB]"

text \<open>\<^verbatim>\<open>/^[\w.]+\./\<close>\<close>

definition re_table_prefix :: rx where
  "re_table_prefix = seqs [Bos, Plus word_or_dot, Sym (\<lambda>c. c = CHR ''.'')]"

text \<open>\<^verbatim>\<open>/^["']|["']$/g\<close>\<close>

definition re_quotes :: rx where
  "re_quotes = Alt (Seq Bos (Sym is_quote)) (Seq (Sym is_quote) Eos)"

text \<open>
  The text of the capture group of a match. In both expressions with a group the group
  takes part in every match (lemmas \<open>re_select_from_group\<close> and
  \<open>re_from_table_group\<close> below), so the second case is never taken.
\<close>

definition group_text :: "rx_match \<Rightarrow> string" where
  "group_text m = (case group1 m of Some g \<Rightarrow> g | None \<Rightarrow> [])"

section \<open>The forbidden-column detector\<close>

record report =
  hasForbidden :: bool
  forbiddenColumns :: "string list"

text \<open>The \<open>forEach\<close> over \<open>FORBIDDEN_COLUMNS\<close>, pushing each name that is found.\<close>

definition found_in :: "string \<Rightarrow> string list" where
  "found_in selectClause = filter (\<lambda>col. rx_test (re_column col) selectClause) FORBIDDEN_COLUMNS"

text \<open>\<open>containsForbiddenColumns\<close> of the execution tool.\<close>

definition containsForbiddenColumns :: "string \<Rightarrow> report" where
  "containsForbiddenColumns sql =
     (let sqlLower = toLowerCase sql;
          isNewsTable =
            (case rx_exec re_from_table sqlLower of
               None \<Rightarrow> False
             | Some m \<Rightarrow> includes_str (toLowerCase (group_text m)) NEWS_TABLE_NAME);
          foundForbidden =
            (if isNewsTable
             then (case rx_exec re_select_from sqlLower of
                     None \<Rightarrow> []
                   | Some m \<Rightarrow> found_in (group_text m))
             else [])
      in \<lparr>hasForbidden = (0 < length foundForbidden), forbiddenColumns = foundForbidden\<rparr>)"

text \<open>\<open>containsForbiddenColumns\<close> of the generation tool: no test of the table.\<close>

definition containsForbiddenColumns_gen :: "string \<Rightarrow> report" where
  "containsForbiddenColumns_gen sql =
     (let sqlLower = toLowerCase sql;
          foundForbidden =
            (case rx_exec re_select_from sqlLower of
               None \<Rightarrow> []
             | Some m \<Rightarrow> found_in (group_text m))
      in \<lparr>hasForbidden = (0 < length foundForbidden), forbiddenColumns = foundForbidden\<rparr>)"

section \<open>The projection rewriter\<close>

definition colName :: "string \<Rightarrow> string" where
  "colName col =
     trim (rx_remove_all re_quotes [] (rx_replace re_table_prefix [] (toLowerCase col)) 0)"

text \<open>
  The columns that \<open>sanitizeSQL\<close> writes for a captured projection: the projection is
  split at commas, each piece trimmed, the forbidden ones filtered out, and the fallback
  pushed when nothing is left. The two tools differ in the fallback only, which is the
  first argument here.
\<close>

definition sanitizedColumns :: "string list \<Rightarrow> string \<Rightarrow> string list" where
  "sanitizedColumns allowed selectClause =
     (let columns = map trim (split CHR '','' selectClause);
          kept = filter (\<lambda>col. colName col \<notin> set FORBIDDEN_COLUMNS) columns
      in if length kept = 0 then kept @ allowed else kept)"

definition sanitize :: "string list \<Rightarrow> string \<Rightarrow> string" where
  "sanitize allowed sql =
     (case rx_exec re_select_from sql of
        None \<Rightarrow> sql
      | Some m \<Rightarrow>
          (let sanitizedSelect = join '', '' (sanitizedColumns allowed (group_text m))
           in rx_replace re_select_from_span (''SELECT '' @ sanitizedSelect @ '' FROM'') sql))"

definition sanitizeSQL :: "string \<Rightarrow> string" where
  "sanitizeSQL = sanitize ALLOWED_COLUMNS"

definition sanitizeSQL_gen :: "string \<Rightarrow> string" where
  "sanitizeSQL_gen = sanitize ALLOWED_COLUMNS_gen"

section \<open>The execution gate\<close>

text \<open>
  The database client is outside the repository. It is modelled by what its operations
  answer: building the client from the connection string (\<open>new Client\<close>) succeeds or
  throws with a message, \<open>connect\<close> and \<open>end\<close> succeed or reject with a message,
  and \<open>query\<close> answers rows or rejects with a message. Every call of a method of the
  client is recorded in a trace, in order; building the client is no call. Writing to the
  console is taken not to fail, and leaves no event.
\<close>

datatype event = Connect | Query string | End

record 'r driver =
  new_client_fails :: "string \<Rightarrow> string option"
  connect_fails :: "string option"
  query_result :: "string \<Rightarrow> string + 'r list"
  end_fails :: "string option"

record 'r result =
  success :: bool
  data :: "'r list option"
  rowCount :: "nat option"
  executedQuery :: string
  warning :: "string option"
  error :: "string option"

datatype 'a outcome = Raised string | Returned 'a

text \<open>\<open>connectionString || process.env.NEWS_DATABASE_URL\<close>: an empty string is falsy.\<close>

definition dbUrl :: "string option \<Rightarrow> string option \<Rightarrow> string option" where
  "dbUrl connectionString env =
     (case connectionString of
        None \<Rightarrow> env
      | Some s \<Rightarrow> if s = [] then env else Some s)"

definition executeQuery :: "'r driver \<Rightarrow> string \<Rightarrow> string + 'r list" where
  "executeQuery drv query =
     (case query_result drv query of
        Inl msg \<Rightarrow> Inl (''Failed to execute query: '' @ msg)
      | Inr rows \<Rightarrow> Inr rows)"

text \<open>The messages of the two errors that \<open>execute\<close> throws itself.\<close>

definition no_connection_message :: string where
  "no_connection_message =
     ''No connection string provided and NEWS_DATABASE_URL is not set in environment variables''"

definition only_select_message :: string where
  "only_select_message = ''Only SELECT queries are allowed for security reasons''"

definition failed :: "string \<Rightarrow> string \<Rightarrow> 'r result" where
  "failed msg query =
     \<lparr>success = False, data = None, rowCount = None, executedQuery = query,
      warning = None, error = Some msg\<rparr>"

definition succeeded :: "'r list \<Rightarrow> string \<Rightarrow> string option \<Rightarrow> 'r result" where
  "succeeded rows query warn =
     \<lparr>success = True, data = Some rows, rowCount = Some (length rows), executedQuery = query,
      warning = warn, error = None\<rparr>"

text \<open>
  The \<open>try\<close> block of \<open>execute\<close> with its \<open>catch\<close>: the result that is about to be
  returned and the calls made so far. The detector and the rewriter are arguments, so that
  a theorem can say that a result does not depend on them.
\<close>

definition execute_try ::
  "(string \<Rightarrow> report) \<Rightarrow> (string \<Rightarrow> string) \<Rightarrow> 'r driver \<Rightarrow> string
     \<Rightarrow> 'r result \<times> event list" where
  "execute_try detect rewrite drv query =
     (case connect_fails drv of
        Some msg \<Rightarrow> (failed msg query, [Connect])
      | None \<Rightarrow>
          (let trimmedQuery = toLowerCase (trim query)
           in if \<not> startsWith trimmedQuery ''select''
              then (failed only_select_message query, [Connect])
              else
                (let validation = detect query
                 in if hasForbidden validation
                    then
                      (let sanitizedQuery = rewrite query
                       in (case executeQuery drv sanitizedQuery of
                             Inl msg \<Rightarrow> (failed msg query, [Connect, Query sanitizedQuery])
                           | Inr rows \<Rightarrow>
                               (succeeded rows sanitizedQuery
                                  (Some (''Forbidden columns (''
                                     @ join '', '' (forbiddenColumns validation)
                                     @ '') were automatically removed from the query.'')),
                                [Connect, Query sanitizedQuery])))
                    else
                      (case executeQuery drv query of
                         Inl msg \<Rightarrow> (failed msg query, [Connect, Query query])
                       | Inr rows \<Rightarrow> (succeeded rows query None, [Connect, Query query])))))"

text \<open>
  \<open>execute\<close>: the test of the connection string and the building of the client come
  before the \<open>try\<close>, and what they throw reaches the caller; the \<open>finally\<close> block
  ends the client on every path, and a rejection there replaces the result.
\<close>

definition execute_with ::
  "(string \<Rightarrow> report) \<Rightarrow> (string \<Rightarrow> string) \<Rightarrow> 'r driver \<Rightarrow> string option
     \<Rightarrow> string option \<Rightarrow> string \<Rightarrow> 'r result outcome \<times> event list" where
  "execute_with detect rewrite drv connectionString env query =
     (case dbUrl connectionString env of
        None \<Rightarrow> (Raised no_connection_message, [])
      | Some url \<Rightarrow>
          if url = [] then (Raised no_connection_message, [])
          else
            (case new_client_fails drv url of
               Some msg \<Rightarrow> (Raised msg, [])
             | None \<Rightarrow>
                 (let (res, calls) = execute_try detect rewrite drv query
                  in (case end_fails drv of
                        None \<Rightarrow> (Returned res, calls @ [End])
                      | Some msg \<Rightarrow> (Raised msg, calls @ [End])))))"

definition execute ::
  "'r driver \<Rightarrow> string option \<Rightarrow> string option \<Rightarrow> string
     \<Rightarrow> 'r result outcome \<times> event list" where
  "execute = execute_with containsForbiddenColumns sanitizeSQL"

text \<open>
  Three clients: one that is built from every connection string, connects, answers no
  rows to every query, and ends; one whose every query is rejected by the database; and
  one that cannot be built from any connection string.
\<close>

definition quiet_driver :: "unit driver" where
  "quiet_driver =
     \<lparr>new_client_fails = (\<lambda>_. None), connect_fails = None, query_result = (\<lambda>_. Inr []),
      end_fails = None\<rparr>"


definition unbuildable_driver :: "unit driver" where
  "unbuildable_driver =
     \<lparr>new_client_fails = (\<lambda>_. Some ''Invalid URL''), connect_fails = None,
      query_result = (\<lambda>_. Inr []), end_fails = None\<rparr>"

subsection \<open>What the detector and the rewriter can throw\<close>

text \<open>
  The string and array operations of the detector and the rewriter have a value on every
  string. The one operation that could throw is a method call on the group of a match,
  which throws a \<open>TypeError\<close> when the group is undefined:
  \<open>newsTableMatch[1].toLowerCase()\<close> in the detector of the execution tool and
  \<open>selectMatch[1].split(',')\<close> in the rewriter. (The detector passes
  \<open>selectMatch[1]\<close> to \<open>test\<close>, which takes any argument.) The functions below are
  the detector and the rewriter with this written out.
\<close>

definition type_error_message :: string where
  "type_error_message = ''TypeError''"

definition containsForbiddenColumns_outcome :: "string \<Rightarrow> report outcome" where
  "containsForbiddenColumns_outcome sql =
     (case rx_exec re_from_table (toLowerCase sql) of
        None \<Rightarrow> Returned (containsForbiddenColumns sql)
      | Some m \<Rightarrow>
          (case group1 m of
             None \<Rightarrow> Raised type_error_message
           | Some _ \<Rightarrow> Returned (containsForbiddenColumns sql)))"

definition containsForbiddenColumns_gen_outcome :: "string \<Rightarrow> report outcome" where
  "containsForbiddenColumns_gen_outcome sql = Returned (containsForbiddenColumns_gen sql)"

definition sanitize_outcome :: "string list \<Rightarrow> string \<Rightarrow> string outcome" where
  "sanitize_outcome allowed sql =
     (case rx_exec re_select_from sql of
        None \<Rightarrow> Returned (sanitize allowed sql)
      | Some m \<Rightarrow>
          (case group1 m of
             None \<Rightarrow> Raised type_error_message
           | Some _ \<Rightarrow> Returned (sanitize allowed sql)))"

text \<open>The queries that a trace submitted to the database.\<close>

fun submitted :: "event list \<Rightarrow> string list" where
  "submitted [] = []"
| "submitted (Query q # es) = q # submitted es"
| "submitted (Connect # es) = submitted es"
| "submitted (End # es) = submitted es"

section \<open>The scenarios of the specification\<close>

definition scenario_1 :: string where
  "scenario_1 = ''SELECT id, title, content FROM articles ORDER BY published_at DESC LIMIT 10''"

definition scenario_2 :: string where
  "scenario_2 = ''SELECT content, body FROM articles''"

text \<open>
  The specification takes the projection between the first case-insensitive \<open>SELECT\<close>
  keyword of the query and the first \<open>FROM\<close> keyword after it. This is the first
  place of a query where \<open>select\<close> stands, in either case.
\<close>

definition first_select_keyword :: "string \<Rightarrow> rx_match option" where
  "first_select_keyword q = rx_exec (lit ''select'') q"

section \<open>Expressions without their capture group\<close>

text \<open>
  \<open>sanitizeSQL\<close> matches with one expression and replaces with the same expression
  written without the group. \<open>ungroup\<close> drops the groups of an expression, and
  \<open>position\<close> is a matcher state without the captured text.
\<close>

fun ungroup :: "rx \<Rightarrow> rx" where
  "ungroup (Grp a) = ungroup a"
| "ungroup (Seq a b) = Seq (ungroup a) (ungroup b)"
| "ungroup (Alt a b) = Alt (ungroup a) (ungroup b)"
| "ungroup e = e"

definition position :: "rx_state \<Rightarrow> string \<times> string" where
  "position st = (fst st, fst (snd st))"

section \<open>What a match of the matcher is\<close>

lemma rx_run_split:
  "(l', r', g') \<in> set (rx_run e (l, r, g)) \<Longrightarrow> \<exists>m. l' = rev m @ l \<and> r = m @ r'"
proof (induction e arbitrary: l r g l' r' g')
  case (Sym p)
  then show ?case by (auto split: list.splits if_splits)
next
  case (Plus p)
  then obtain k where "l' = rev (take k r) @ l" "r' = drop k r" by auto
  then show ?case by (intro exI [of _ "take k r"]) simp
next
  case (PlusLazy p)
  then obtain k where "l' = rev (take k r) @ l" "r' = drop k r" by auto
  then show ?case by (intro exI [of _ "take k r"]) simp
next
  case (Seq a b)
  from Seq.prems obtain l1 r1 g1 where
    a: "(l1, r1, g1) \<in> set (rx_run a (l, r, g))" and b: "(l', r', g') \<in> set (rx_run b (l1, r1, g1))"
    by auto
  from Seq.IH(1) [OF a] obtain m1 where m1: "l1 = rev m1 @ l" "r = m1 @ r1" by blast
  from Seq.IH(2) [OF b] obtain m2 where m2: "l' = rev m2 @ l1" "r1 = m2 @ r'" by blast
  show ?case using m1 m2 by (intro exI [of _ "m1 @ m2"]) simp
next
  case (Alt a b)
  then show ?case by auto
next
  case (Grp a)
  then show ?case by auto
qed (auto split: if_splits)

lemma rx_run_lit:
  "(l', r', g') \<in> set (rx_run (lit w) (l, r, g)) \<Longrightarrow>
     \<exists>m. l' = rev m @ l \<and> r = m @ r' \<and> list_all2 ci w m \<and> g' = g"
proof (induction w arbitrary: l r)
  case Nil
  then show ?case by simp
next
  case (Cons a w)
  from Cons.prems obtain c r1 where r: "r = c # r1" and c: "ci a c"
    and rest: "(l', r', g') \<in> set (rx_run (lit w) (c # l, r1, g))"
    by (auto split: list.splits if_splits)
  from Cons.IH [OF rest] obtain m where "l' = rev m @ c # l" "r1 = m @ r'" "list_all2 ci w m" "g' = g"
    by blast
  then show ?case using r c by (intro exI [of _ "c # m"]) simp
qed

lemma take_le_takeWhile:
  "k \<le> length (takeWhile p r) \<Longrightarrow> c \<in> set (take k r) \<Longrightarrow> p c"
proof -
  assume k: "k \<le> length (takeWhile p r)" and c: "c \<in> set (take k r)"
  have "take k r = take k (takeWhile p r @ dropWhile p r)" by simp
  also have "\<dots> = take k (takeWhile p r)" using k by (simp del: takeWhile_dropWhile_id)
  finally have "c \<in> set (takeWhile p r)" using c by (auto dest: in_set_takeD)
  then show "p c" by (rule set_takeWhileD [THEN conjunct2])
qed

lemma rx_run_PlusLazy:
  "(l', r', g') \<in> set (rx_run (PlusLazy p) (l, r, g)) \<Longrightarrow>
     \<exists>m. l' = rev m @ l \<and> r = m @ r' \<and> (\<forall>c \<in> set m. p c) \<and> g' = g"
proof -
  assume "(l', r', g') \<in> set (rx_run (PlusLazy p) (l, r, g))"
  then obtain k where "k < Suc (length (takeWhile p r))"
    and eq: "l' = rev (take k r) @ l" "r' = drop k r" "g' = g"
    by (auto simp del: upt_Suc)
  then have k: "k \<le> length (takeWhile p r)" by simp
  show ?thesis using eq take_le_takeWhile [OF k] by (intro exI [of _ "take k r"]) simp
qed

lemma rx_run_Plus:
  "(l', r', g') \<in> set (rx_run (Plus p) (l, r, g)) \<Longrightarrow>
     \<exists>m. l' = rev m @ l \<and> r = m @ r' \<and> (\<forall>c \<in> set m. p c) \<and> g' = g"
proof -
  assume "(l', r', g') \<in> set (rx_run (Plus p) (l, r, g))"
  then obtain k where "k < Suc (length (takeWhile p r))"
    and eq: "l' = rev (take k r) @ l" "r' = drop k r" "g' = g"
    by (auto simp del: upt_Suc)
  then have k: "k \<le> length (takeWhile p r)" by simp
  show ?thesis using eq take_le_takeWhile [OF k] by (intro exI [of _ "take k r"]) simp
qed

lemma rx_run_Grp:
  "(l', r', g') \<in> set (rx_run (Grp a) (l, r, g)) \<Longrightarrow>
     \<exists>m g0. (l', r', g0) \<in> set (rx_run a (l, r, g)) \<and> l' = rev m @ l \<and> r = m @ r' \<and> g' = Some m"
proof -
  assume "(l', r', g') \<in> set (rx_run (Grp a) (l, r, g))"
  then obtain g0 where a: "(l', r', g0) \<in> set (rx_run a (l, r, g))"
    and g': "g' = Some (rev (take (length l' - length l) l'))" by auto
  from rx_run_split [OF a] obtain m where m: "l' = rev m @ l" "r = m @ r'" by blast
  then have "g' = Some m" using g' by simp
  then show ?thesis using a m by blast
qed

lemma rx_run_Seq:
  "(l', r', g') \<in> set (rx_run (Seq a b) st) \<longleftrightarrow>
     (\<exists>l1 r1 g1. (l1, r1, g1) \<in> set (rx_run a st) \<and> (l', r', g') \<in> set (rx_run b (l1, r1, g1)))"
  by auto

lemma rx_run_Eps: "x \<in> set (rx_run Eps st) \<longleftrightarrow> x = st"
  by simp

lemma re_select_from_run:
  assumes "(l', r', g') \<in> set (rx_run re_select_from (l, r, g))"
  shows "\<exists>t. g' = Some t \<and> (\<forall>c \<in> set t. none_of ''from'' c)"
proof -
  from assms obtain l2 r2 g2 l3 r3 g3 l4 r4 g4 where
    s3: "(l3, r3, g3) \<in> set (rx_run (Grp (PlusLazy (none_of ''from''))) (l2, r2, g2))" and
    s4: "(l4, r4, g4) \<in> set (rx_run (Plus is_space) (l3, r3, g3))" and
    s5: "(l', r', g') \<in> set (rx_run (lit ''from'') (l4, r4, g4))"
    unfolding re_select_from_def seqs.simps rx_run_Seq rx_run_Eps by blast
  from rx_run_Grp [OF s3] obtain t g0 where
    t: "(l3, r3, g0) \<in> set (rx_run (PlusLazy (none_of ''from'')) (l2, r2, g2))"
       "l3 = rev t @ l2" "r2 = t @ r3" "g3 = Some t" by blast
  from rx_run_PlusLazy [OF t(1)] obtain m where
    m: "l3 = rev m @ l2" "r2 = m @ r3" "\<forall>c \<in> set m. none_of ''from'' c" by blast
  from m t have "t = m" by simp
  moreover from rx_run_Plus [OF s4] have "g4 = g3" by blast
  moreover from rx_run_lit [OF s5] have "g' = g4" by blast
  ultimately show ?thesis using t(4) m(3) by simp
qed

lemma rx_search_Some:
  "rx_search e l r = Some m \<Longrightarrow>
     \<exists>l0. rev l @ r = before m @ matched m @ after m \<and> before m = rev l0 \<and>
       (rev (matched m) @ l0, after m, group1 m) \<in> set (rx_run e (l0, matched m @ after m, None))"
proof (induction e l r rule: rx_search.induct)
  case (1 e l)
  then obtain l' r' g rest where run: "rx_run e (l, [], None) = (l', r', g) # rest"
    and m: "m = \<lparr>before = rev l, matched = rev (take (length l' - length l) l'), after = r', group1 = g\<rparr>"
    by (auto split: list.splits)
  from run have "(l', r', g) \<in> set (rx_run e (l, [], None))" by simp
  from this rx_run_split [OF this] show ?case using m by (intro exI [of _ l]) auto
next
  case (2 e l c r)
  show ?case
  proof (cases "rx_run e (l, c # r, None)")
    case Nil
    with 2 show ?thesis by simp
  next
    case (Cons st rest)
    obtain l' r' g where st: "st = (l', r', g)" by (cases st)
    with Cons 2(2) have m: "m = \<lparr>before = rev l, matched = rev (take (length l' - length l) l'), after = r', group1 = g\<rparr>"
      by simp
    from Cons st have "(l', r', g) \<in> set (rx_run e (l, c # r, None))" by simp
    from this rx_run_split [OF this] show ?thesis using m by (intro exI [of _ l]) auto
  qed
qed

lemma rx_exec_Some:
  assumes "rx_exec e s = Some m"
  shows "s = before m @ matched m @ after m"
    and "(rev (matched m) @ rev (before m), after m, group1 m)
           \<in> set (rx_run e (rev (before m), matched m @ after m, None))"
proof -
  from assms have "rx_search e [] s = Some m" by (simp only: rx_exec_def)
  from rx_search_Some [OF this] obtain l0 where
    l0: "rev [] @ s = before m @ matched m @ after m" "before m = rev l0"
      "(rev (matched m) @ l0, after m, group1 m) \<in> set (rx_run e (l0, matched m @ after m, None))"
    by blast
  from l0(2) have eq: "l0 = rev (before m)" by simp
  from l0(1) show "s = before m @ matched m @ after m" by simp
  from l0(3) show "(rev (matched m) @ rev (before m), after m, group1 m)
           \<in> set (rx_run e (rev (before m), matched m @ after m, None))"
    unfolding eq .
qed

lemma re_select_from_group:
  assumes "rx_exec re_select_from s = Some m"
  shows "\<exists>t. group1 m = Some t \<and> (\<forall>c \<in> set t. none_of ''from'' c)"
  using rx_exec_Some(2) [OF assms] by (rule re_select_from_run)

lemma re_from_table_group:
  assumes "rx_exec re_from_table s = Some m"
  shows "\<exists>t. group1 m = Some t \<and> (\<forall>c \<in> set t. word_or_dot c)"
proof -
  from rx_exec_Some(2) [OF assms] obtain l2 r2 g2 where
    s3: "(rev (matched m) @ rev (before m), after m, group1 m)
           \<in> set (rx_run (Grp (Plus word_or_dot)) (l2, r2, g2))"
    unfolding re_from_table_def seqs.simps rx_run_Seq rx_run_Eps by blast
  from rx_run_Grp [OF s3] obtain t g0 where
    t: "(rev (matched m) @ rev (before m), after m, g0) \<in> set (rx_run (Plus word_or_dot) (l2, r2, g2))"
       "rev (matched m) @ rev (before m) = rev t @ l2" "r2 = t @ after m" "group1 m = Some t" by blast
  from rx_run_Plus [OF t(1)] obtain w where
    w: "rev (matched m) @ rev (before m) = rev w @ l2" "r2 = w @ after m" "\<forall>c \<in> set w. word_or_dot c"
    by blast
  from w(2) t(3) have "t = w" by simp
  with t(4) w(3) show ?thesis by simp
qed

lemma re_column_test:
  assumes "rx_test (re_column col) s"
  shows "\<exists>w. list_all2 ci col w \<and> set w \<subseteq> set s"
proof -
  from assms obtain m where m: "rx_exec (re_column col) s = Some m"
    unfolding rx_test_def by auto
  note s = rx_exec_Some(1) [OF m]
  from rx_exec_Some(2) [OF m] obtain l1 r1 g1 l2 r2 g2 where
    s1: "(l1, r1, g1) \<in> set (rx_run WordB (rev (before m), matched m @ after m, None))" and
    s2: "(l2, r2, g2) \<in> set (rx_run (lit col) (l1, r1, g1))"
    unfolding re_column_def seqs.simps rx_run_Seq by blast
  from s1 have r1: "r1 = matched m @ after m" by (simp split: if_splits)
  from rx_run_lit [OF s2] obtain w where w: "r1 = w @ r2" "list_all2 ci col w" by blast
  from w(1) r1 s have "set w \<subseteq> set s"
    by (metis Un_upper1 Un_upper2 set_append subset_trans)
  with w(2) show ?thesis by blast
qed

section \<open>The detector reports nothing\<close>

lemma list_all2_set_left:
  "list_all2 P xs ys \<Longrightarrow> x \<in> set xs \<Longrightarrow> \<exists>y \<in> set ys. P x y"
  by (induction rule: list_all2_induct) auto

lemma forbidden_cases:
  "col \<in> set FORBIDDEN_COLUMNS \<Longrightarrow>
     col = ''content'' \<or> col = ''body'' \<or> col = ''full_text'' \<or> col = ''html'' \<or> col = ''raw_content''"
  unfolding FORBIDDEN_COLUMNS_def by simp

lemma forbidden_has_from:
  assumes "col \<in> set FORBIDDEN_COLUMNS"
  shows "\<exists>a \<in> set col. a \<in> set ''from''"
proof -
  have 1: "\<exists>a \<in> set ''content''. a \<in> set ''from''"
    by (intro bexI [of _ "CHR ''o''"]) simp_all
  have 2: "\<exists>a \<in> set ''body''. a \<in> set ''from''"
    by (intro bexI [of _ "CHR ''o''"]) simp_all
  have 3: "\<exists>a \<in> set ''full_text''. a \<in> set ''from''"
    by (intro bexI [of _ "CHR ''f''"]) simp_all
  have 4: "\<exists>a \<in> set ''html''. a \<in> set ''from''"
    by (intro bexI [of _ "CHR ''m''"]) simp_all
  have 5: "\<exists>a \<in> set ''raw_content''. a \<in> set ''from''"
    by (intro bexI [of _ "CHR ''r''"]) simp_all
  from forbidden_cases [OF assms] 1 2 3 4 5 show ?thesis by blast
qed

lemma found_in_none:
  assumes "\<forall>c \<in> set t. none_of ''from'' c"
  shows "found_in t = []"
proof -
  have "\<not> rx_test (re_column col) t" if col: "col \<in> set FORBIDDEN_COLUMNS" for col
  proof
    assume "rx_test (re_column col) t"
    from re_column_test [OF this] obtain w where w: "list_all2 ci col w" "set w \<subseteq> set t" by blast
    from forbidden_has_from [OF col] obtain a where a: "a \<in> set col" "a \<in> set ''from''" by blast
    from list_all2_set_left [OF w(1) a(1)] obtain c where c: "c \<in> set w" "ci a c" by blast
    from c(2) a(2) have "one_of ''from'' c" unfolding one_of_def by blast
    moreover from c(1) w(2) assms have "none_of ''from'' c" by blast
    ultimately show False by (simp add: none_of_def)
  qed
  then show ?thesis unfolding found_in_def by (simp add: filter_empty_conv)
qed

lemma found_in_select_from:
  "(case rx_exec re_select_from s of None \<Rightarrow> [] | Some m \<Rightarrow> found_in (group_text m)) = []"
proof (cases "rx_exec re_select_from s")
  case None
  then show ?thesis by simp
next
  case (Some m)
  from re_select_from_group [OF Some] obtain t where
    "group1 m = Some t" "\<forall>c \<in> set t. none_of ''from'' c" by blast
  then show ?thesis using Some by (simp add: group_text_def found_in_none)
qed

lemma detector_never_flags:
  "containsForbiddenColumns sql = \<lparr>hasForbidden = False, forbiddenColumns = []\<rparr>"
  unfolding containsForbiddenColumns_def Let_def by (simp add: found_in_select_from)

lemma detector_gen_never_flags:
  "containsForbiddenColumns_gen sql = \<lparr>hasForbidden = False, forbiddenColumns = []\<rparr>"
  unfolding containsForbiddenColumns_gen_def Let_def by (simp add: found_in_select_from)

text \<open>
  Claim C2. On every input both copies of \<open>containsForbiddenColumns\<close>, the one of the
  execution tool and the one of the generation tool, return \<open>hasForbidden = false\<close> and
  an empty list of columns: the captured projection holds none of the letters
  \<open>f\<close>, \<open>r\<close>, \<open>o\<close>, \<open>m\<close> (lemma \<open>re_select_from_group\<close>), and each forbidden
  name holds one of them (lemma \<open>forbidden_has_from\<close>).
\<close>

theorem detector_reports_nothing:
  "containsForbiddenColumns sql = \<lparr>hasForbidden = False, forbiddenColumns = []\<rparr> \<and>
   containsForbiddenColumns_gen sql = \<lparr>hasForbidden = False, forbiddenColumns = []\<rparr>"
  by (simp only: detector_never_flags detector_gen_never_flags)

text \<open>
  Claim C8. Closure: the detector run on the output of the rewriter reports no violation,
  for every query (so for every query on the guarded table), in both tools.
\<close>

theorem rewrite_closed_under_detection:
  "hasForbidden (containsForbiddenColumns (sanitizeSQL q)) = False \<and>
   hasForbidden (containsForbiddenColumns_gen (sanitizeSQL_gen q)) = False"
  by (simp add: detector_never_flags detector_gen_never_flags)

section \<open>The rewriter on unparseable input\<close>

lemma sanitize_no_match: "rx_exec re_select_from q = None \<Longrightarrow> sanitize allowed q = q"
  by (simp add: sanitize_def)

text \<open>
  Claim C9. Fail-open on unparseable input: when no \<open>SELECT ... FROM\<close> pair can be
  extracted from a query (the expression of the source has no match in it), the detector of
  either tool reports no violation and the rewriter of either tool returns the query
  unchanged.
\<close>

theorem fail_open_on_unparseable:
  assumes "rx_exec re_select_from q = None"
  shows "hasForbidden (containsForbiddenColumns q) = False \<and>
         hasForbidden (containsForbiddenColumns_gen q) = False \<and>
         sanitizeSQL q = q \<and> sanitizeSQL_gen q = q"
  using assms
  by (simp add: detector_never_flags detector_gen_never_flags sanitizeSQL_def sanitizeSQL_gen_def
      sanitize_no_match)

theorem fail_open_on_unparseable_witness:
  "rx_exec re_select_from ''SELECT 1'' = None \<and>
   hasForbidden (containsForbiddenColumns ''SELECT 1'') = False \<and>
   hasForbidden (containsForbiddenColumns_gen ''SELECT 1'') = False \<and>
   sanitizeSQL ''SELECT 1'' = ''SELECT 1'' \<and> sanitizeSQL_gen ''SELECT 1'' = ''SELECT 1''"
proof -
  have h: "rx_exec re_select_from ''SELECT 1'' = None" by code_simp
  from fail_open_on_unparseable [OF h] h show ?thesis by simp
qed

lemma getSubstitution_plain:
  "CHR ''$'' \<notin> set a \<Longrightarrow> getSubstitution m (a @ b) = a @ getSubstitution m b"
proof (induction a rule: induct_list012)
  case 1
  then show ?case by simp
next
  case (2 x)
  then show ?case by (cases b) auto
next
  case (3 x y zs)
  then show ?case by auto
qed

lemma getSubstitution_tail:
  "\<exists>y. getSubstitution m (x @ '' FROM'') = y @ '' FROM''"
proof (induction x rule: induct_list012)
  case 1
  show ?case by simp
next
  case (2 c)
  show ?case by simp
next
  case (3 c d t)
  from 3 obtain y1 y2 where
    y: "getSubstitution m (t @ '' FROM'') = y1 @ '' FROM''"
       "getSubstitution m (d # t @ '' FROM'') = y2 @ '' FROM''" by auto
  show ?case
    using y
    by (auto simp: append_eq_Cons_conv intro: exI [of _ "_ @ y1"] exI [of _ "_ # y2"] exI [of _ "_ # y1"])
qed

section \<open>Matching with and without the group\<close>

lemma position_simp [simp]: "position (l, r, g) = (l, r)"
  by (simp add: position_def)

lemma positions_concat:
  assumes "map position xs = map position ys"
    and "\<And>x y. position x = position y \<Longrightarrow> map position (f x) = map position (f' y)"
  shows "map position (concat (map f xs)) = map position (concat (map f' ys))"
  using assms(1)
proof (induction xs arbitrary: ys)
  case Nil
  then show ?case by simp
next
  case (Cons x xs)
  then obtain y ys' where ys: "ys = y # ys'" by (cases ys) auto
  with Cons.prems have "position x = position y" "map position xs = map position ys'" by auto
  with Cons.IH [of ys'] assms(2) [of x y] ys show ?case by simp
qed

lemma rx_run_ungroup:
  "map position (rx_run (ungroup e) (l, r, g')) = map position (rx_run e (l, r, g))"
proof (induction e arbitrary: l r g g')
  case (Seq a b)
  have "map position (concat (map (rx_run (ungroup b)) (rx_run (ungroup a) (l, r, g'))))
      = map position (concat (map (rx_run b) (rx_run a (l, r, g))))"
  proof (rule positions_concat)
    show "map position (rx_run (ungroup a) (l, r, g')) = map position (rx_run a (l, r, g))"
      by (rule Seq.IH(1))
  next
    fix x y :: rx_state
    assume xy: "position x = position y"
    obtain l1 r1 g1 where x: "x = (l1, r1, g1)" by (cases x)
    obtain l2 r2 g2 where y: "y = (l2, r2, g2)" by (cases y)
    from xy x y have "l1 = l2" "r1 = r2" by simp_all
    with x y Seq.IH(2) [of l2 r2 g1 g2]
    show "map position (rx_run (ungroup b) x) = map position (rx_run b y)" by simp
  qed
  then show ?case by simp
next
  case (Alt a b)
  from Alt.IH(1) [of l r g' g] Alt.IH(2) [of l r g' g] show ?case by simp
next
  case (Grp a)
  have "map position (rx_run (Grp a) (l, r, g)) = map position (rx_run a (l, r, g))"
    by (simp add: case_prod_beta position_def)
  with Grp [of l r g' g] show ?case by simp
qed (simp_all add: comp_def split: list.splits)

lemma ungroup_lit: "ungroup (lit w) = lit w"
  by (induction w) simp_all

lemma span_is_ungroup: "re_select_from_span = ungroup re_select_from"
  by (simp add: re_select_from_span_def re_select_from_def ungroup_lit)

lemma rx_run_ungroup_group:
  "(l', r', g') \<in> set (rx_run (ungroup e) (l, r, g)) \<Longrightarrow> g' = g"
proof (induction e arbitrary: l r g l' r' g')
  case (Seq a b)
  from Seq.prems obtain l1 r1 g1 where
    a: "(l1, r1, g1) \<in> set (rx_run (ungroup a) (l, r, g))" and
    b: "(l', r', g') \<in> set (rx_run (ungroup b) (l1, r1, g1))" by auto
  from Seq.IH(1) [OF a] Seq.IH(2) [OF b] show ?case by simp
next
  case (Alt a b)
  then show ?case by auto
next
  case (Grp a)
  then show ?case by simp
qed (auto split: list.splits if_splits)

lemma rx_search_ungroup:
  "rx_search (ungroup e) l r = map_option (\<lambda>m. m\<lparr>group1 := None\<rparr>) (rx_search e l r)"
proof (induction r arbitrary: l)
  case Nil
  show ?case
  proof (cases "rx_run e (l, [], None)")
    case Nil
    with rx_run_ungroup [of e l "[]" None None] show ?thesis by simp
  next
    case (Cons st rest)
    obtain l1 r1 g1 where st: "st = (l1, r1, g1)" by (cases st)
    from Cons st rx_run_ungroup [of e l "[]" None None] obtain g2 rest2 where
      u: "rx_run (ungroup e) (l, [], None) = (l1, r1, g2) # rest2"
      by (cases "rx_run (ungroup e) (l, [], None)") auto
    then have "(l1, r1, g2) \<in> set (rx_run (ungroup e) (l, [], None))" by simp
    from rx_run_ungroup_group [OF this] have "g2 = None" .
    with u Cons st show ?thesis by simp
  qed
next
  case (Cons c r)
  show ?case
  proof (cases "rx_run e (l, c # r, None)")
    case Nil
    with rx_run_ungroup [of e l "c # r" None None] Cons.IH [of "c # l"] show ?thesis by simp
  next
    case (Cons st rest)
    obtain l1 r1 g1 where st: "st = (l1, r1, g1)" by (cases st)
    from Cons st rx_run_ungroup [of e l "c # r" None None] obtain g2 rest2 where
      u: "rx_run (ungroup e) (l, c # r, None) = (l1, r1, g2) # rest2"
      by (cases "rx_run (ungroup e) (l, c # r, None)") auto
    then have "(l1, r1, g2) \<in> set (rx_run (ungroup e) (l, c # r, None))" by simp
    from rx_run_ungroup_group [OF this] have "g2 = None" .
    with u Cons st show ?thesis by simp
  qed
qed

lemma rx_exec_span:
  "rx_exec re_select_from_span q = map_option (\<lambda>m. m\<lparr>group1 := None\<rparr>) (rx_exec re_select_from q)"
  by (simp only: rx_exec_def span_is_ungroup rx_search_ungroup)

section \<open>Lower case and the class of the projection\<close>

lemma of_char_lower:
  "(of_char (toLowerCase_char c) :: nat) =
     (if (65 \<le> (of_char c :: nat) \<and> (of_char c :: nat) \<le> 90) \<or>
         (192 \<le> (of_char c :: nat) \<and> (of_char c :: nat) \<le> 222 \<and> (of_char c :: nat) \<noteq> 215)
      then of_char c + 32 else of_char c)"
  by (simp add: toLowerCase_char_def Let_def)

lemma of_char_canon:
  "(of_char (canonicalize c) :: nat) =
     (if (97 \<le> (of_char c :: nat) \<and> (of_char c :: nat) \<le> 122) \<or>
         (224 \<le> (of_char c :: nat) \<and> (of_char c :: nat) \<le> 254 \<and> (of_char c :: nat) \<noteq> 247)
      then of_char c - 32 else of_char c)"
proof -
  have "(of_char c :: nat) < 256" by simp
  then have "(of_char c :: nat) - 32 < 256" by arith
  then have "((of_char c :: nat) - 32) mod 256 = of_char c - 32" by (rule mod_less)
  then show ?thesis by (simp add: canonicalize_def Let_def)
qed

lemma e1: "(of_char CHR ''f'' :: nat) = 102" by simp

lemma ci_iff: "ci a c \<longleftrightarrow> (of_char (canonicalize c) :: nat) = of_char (canonicalize a)"
  by (simp add: ci_def)

lemma lower_from:
  assumes "toLowerCase_char c \<in> set ''from''"
  shows "one_of ''from'' c"
proof -
  from assms have "(of_char (toLowerCase_char c) :: nat) \<in> {102, 114, 111, 109}"
    by auto
  then have n: "(of_char c :: nat) \<in> {102, 114, 111, 109, 70, 82, 79, 77}"
    unfolding of_char_lower by (auto split: if_splits)
  have "ci CHR ''f'' c \<or> ci CHR ''r'' c \<or> ci CHR ''o'' c \<or> ci CHR ''m'' c"
    unfolding ci_iff of_char_canon using n by auto
  then show ?thesis by (auto simp: one_of_def)
qed

section \<open>The rewriter keeps every column\<close>

lemma set_trim: "set (trim s) \<subseteq> set s"
proof -
  have "set (dropWhile is_space (rev (dropWhile is_space s))) \<subseteq> set (rev (dropWhile is_space s))"
    by (rule set_dropWhileD [THEN subsetI])
  also have "\<dots> \<subseteq> set s" by (auto dest: set_dropWhileD)
  finally show ?thesis by (simp add: trim_def)
qed

lemma split_not_Nil: "split d s \<noteq> []"
  by (cases s) (auto split: list.splits)

lemma set_split: "x \<in> set (split d s) \<Longrightarrow> set x \<subseteq> set s"
proof (induction s arbitrary: x)
  case Nil
  then show ?case by simp
next
  case (Cons c cs)
  show ?case
  proof (cases "c = d")
    case True
    with Cons show ?thesis by auto
  next
    case False
    obtain y ys where sp: "split d cs = y # ys"
      by (cases "split d cs") (auto simp: split_not_Nil)
    with False Cons.prems have "x = c # y \<or> x \<in> set ys" by simp
    then show ?thesis
    proof
      assume "x = c # y"
      moreover from sp have "y \<in> set (split d cs)" by simp
      ultimately show ?thesis using Cons.IH [of y] by auto
    next
      assume "x \<in> set ys"
      with sp have "x \<in> set (split d cs)" by simp
      then show ?thesis using Cons.IH [of x] by auto
    qed
  qed
qed

lemma set_rx_remove_all: "set (rx_remove_all e l r k) \<subseteq> set r"
proof (induction r arbitrary: l k)
  case Nil
  show ?case by simp
next
  case (Cons c r)
  have 1: "set (rx_remove_all e (c # l) r j) \<subseteq> set (c # r)" for j
    using Cons [of "c # l" j] by auto
  show ?case
    using 1 by (auto split: list.splits simp: Let_def) 
qed

lemma set_rx_replace_empty: "set (rx_replace e [] s) \<subseteq> set s"
proof (cases "rx_exec e s")
  case None
  then show ?thesis by (simp add: rx_replace_def)
next
  case (Some m)
  have "set (before m @ after m) \<subseteq> set (before m @ matched m @ after m)" by auto
  with rx_exec_Some(1) [OF Some] have "set (before m @ after m) \<subseteq> set s" by simp
  with Some show ?thesis by (simp add: rx_replace_def)
qed

lemma set_colName: "set (colName col) \<subseteq> toLowerCase_char ` set col"
proof -
  have "set (colName col) \<subseteq> set (toLowerCase col)"
    unfolding colName_def
    using set_trim set_rx_remove_all set_rx_replace_empty by (meson subset_trans)
  then show ?thesis by (simp add: toLowerCase_def)
qed

lemma colName_allowed:
  assumes "\<forall>c \<in> set col. none_of ''from'' c"
  shows "colName col \<notin> set FORBIDDEN_COLUMNS"
proof
  assume "colName col \<in> set FORBIDDEN_COLUMNS"
  from forbidden_has_from [OF this] obtain a where a: "a \<in> set (colName col)" "a \<in> set ''from''"
    by blast
  from a(1) set_colName obtain c where c: "c \<in> set col" "a = toLowerCase_char c" by blast
  from a(2) c(2) have "one_of ''from'' c" by (simp only: lower_from)
  moreover from c(1) assms have "none_of ''from'' c" by blast
  ultimately show False by (simp add: none_of_def)
qed

lemma sanitizedColumns_keeps_all:
  assumes "\<forall>c \<in> set t. none_of ''from'' c"
  shows "sanitizedColumns allowed t = map trim (split CHR '','' t)"
proof -
  have "colName col \<notin> set FORBIDDEN_COLUMNS" if "col \<in> set (map trim (split CHR '','' t))" for col
  proof -
    from that obtain x where x: "x \<in> set (split CHR '','' t)" "col = trim x" by auto
    from set_split [OF x(1)] set_trim [of x] x(2) have "set col \<subseteq> set t" by blast
    with assms show ?thesis by (intro colName_allowed) blast
  qed
  then have "filter (\<lambda>col. colName col \<notin> set FORBIDDEN_COLUMNS) (map trim (split CHR '','' t))
      = map trim (split CHR '','' t)"
    by (simp only: filter_id_conv) blast
  then show ?thesis
    unfolding sanitizedColumns_def Let_def by (simp add: split_not_Nil)
qed

section \<open>What the rewriter returns\<close>

lemma group_text_select_from:
  assumes "rx_exec re_select_from q = Some m"
  shows "\<forall>c \<in> set (group_text m). none_of ''from'' c"
  using re_select_from_group [OF assms] by (auto simp: group_text_def)

lemma sanitize_match:
  assumes "rx_exec re_select_from q = Some m"
  shows "sanitize allowed q =
           before m @
           getSubstitution (m\<lparr>group1 := None\<rparr>)
             (''SELECT '' @ join '', '' (map trim (split CHR '','' (group_text m))) @ '' FROM'') @
           after m"
proof -
  have "sanitizedColumns allowed (group_text m) = map trim (split CHR '','' (group_text m))"
    by (rule sanitizedColumns_keeps_all) (rule group_text_select_from [OF assms])
  moreover have "rx_exec re_select_from_span q = Some (m\<lparr>group1 := None\<rparr>)"
    by (simp add: rx_exec_span assms)
  ultimately show ?thesis
    unfolding sanitize_def rx_replace_def Let_def by (simp add: assms)
qed

lemma sanitize_frame:
  assumes "rx_exec re_select_from q = Some m"
  shows "\<exists>p. sanitize allowed q = before m @ ''SELECT '' @ p @ '' FROM'' @ after m"
proof -
  let ?cols = "join '', '' (map trim (split CHR '','' (group_text m)))"
  let ?m = "m\<lparr>group1 := None\<rparr>"
  have "getSubstitution ?m (''SELECT '' @ ?cols @ '' FROM'')
      = ''SELECT '' @ getSubstitution ?m (?cols @ '' FROM'')"
    by (rule getSubstitution_plain) simp
  moreover from getSubstitution_tail [of ?m ?cols] obtain p where
    "getSubstitution ?m (?cols @ '' FROM'') = p @ '' FROM''" by blast
  ultimately show ?thesis unfolding sanitize_match [OF assms] by (intro exI [of _ p]) simp
qed

text \<open>
  The span is the first match of the expression of the source. It is not always the
  leading \<open>SELECT ... FROM\<close> of the query: when the leading projection holds one of
  \<open>f\<close>, \<open>r\<close>, \<open>o\<close>, \<open>m\<close>, the first match can lie in a subquery.
\<close>

lemma first_match_in_subquery:
  "sanitizeSQL ''SELECT content FROM news WHERE id IN (select id from t) LIMIT 5'' =
     ''SELECT content FROM news WHERE id IN (SELECT id FROM t) LIMIT 5''"
  by code_simp

lemma set_join: "set (join sep xs) \<subseteq> set sep \<union> \<Union> (set ` set xs)"
  by (induction sep xs rule: join.induct) auto

lemma no_dollar_columns:
  assumes "CHR ''$'' \<notin> set t"
  shows "CHR ''$'' \<notin> set (join '', '' (map trim (split CHR '','' t)))"
proof
  assume "CHR ''$'' \<in> set (join '', '' (map trim (split CHR '','' t)))"
  with set_join [of "'', ''" "map trim (split CHR '','' t)"]
  obtain x where "x \<in> set (split CHR '','' t)" "CHR ''$'' \<in> set (trim x)" by auto
  with set_split [of x "CHR '',''" t] set_trim [of x] assms show False by blast
qed

lemma sanitize_identity_iff:
  assumes "rx_exec re_select_from q = Some m" and "CHR ''$'' \<notin> set (group_text m)"
  shows "sanitize allowed q = q \<longleftrightarrow>
         matched m = ''SELECT '' @ join '', '' (map trim (split CHR '','' (group_text m))) @ '' FROM''"
proof -
  let ?t = "''SELECT '' @ join '', '' (map trim (split CHR '','' (group_text m))) @ '' FROM''"
  have "CHR ''$'' \<notin> set ?t" using no_dollar_columns [OF assms(2)] by simp
  from getSubstitution_plain [OF this, of "m\<lparr>group1 := None\<rparr>" "[]"]
  have "getSubstitution (m\<lparr>group1 := None\<rparr>) ?t = ?t" by simp
  then have "sanitize allowed q = before m @ ?t @ after m"
    unfolding sanitize_match [OF assms(1)] by simp
  moreover note rx_exec_Some(1) [OF assms(1)]
  ultimately show ?thesis by auto
qed

text \<open>
  Claim C7, as amended. For a query with an extractable projection that contains no
  \<open>$\<close>, the rewriter returns its input if and only if the matched span is already
  written the way the rewriter writes it: \<open>SELECT\<close>, one space, the trimmed columns
  joined by a comma and a space, one space, \<open>FROM\<close>. Every column of such a projection
  is kept (lemma \<open>sanitizedColumns_keeps_all\<close>), but the keywords and the spacing of
  the span are normalised.
\<close>

theorem rewrite_identity_iff:
  assumes "rx_exec re_select_from q = Some m" and "CHR ''$'' \<notin> set (group_text m)"
  shows "(sanitizeSQL q = q \<longleftrightarrow>
            matched m = ''SELECT '' @ join '', '' (map trim (split CHR '','' (group_text m))) @ '' FROM'') \<and>
         (sanitizeSQL_gen q = q \<longleftrightarrow>
            matched m = ''SELECT '' @ join '', '' (map trim (split CHR '','' (group_text m))) @ '' FROM'')"
  unfolding sanitizeSQL_def sanitizeSQL_gen_def
  using sanitize_identity_iff [OF assms] by blast

theorem rewrite_identity_iff_witness:
  "rx_exec re_select_from ''SELECT id, title FROM news WHERE id = 1'' =
     Some \<lparr>before = [], matched = ''SELECT id, title FROM'', after = '' news WHERE id = 1'',
           group1 = Some ''id, title''\<rparr> \<and>
   sanitizeSQL ''SELECT id, title FROM news WHERE id = 1'' = ''SELECT id, title FROM news WHERE id = 1'' \<and>
   sanitizeSQL_gen ''SELECT id, title FROM news WHERE id = 1'' = ''SELECT id, title FROM news WHERE id = 1''"
proof -
  have h: "rx_exec re_select_from ''SELECT id, title FROM news WHERE id = 1'' =
     Some \<lparr>before = [], matched = ''SELECT id, title FROM'', after = '' news WHERE id = 1'',
           group1 = Some ''id, title''\<rparr>"
    by code_simp
  have d: "CHR ''$'' \<notin> set (group_text \<lparr>before = [], matched = ''SELECT id, title FROM'',
      after = '' news WHERE id = 1'', group1 = Some ''id, title''\<rparr>)"
    by (simp add: group_text_def)
  have c: "''SELECT id, title FROM'' =
      ''SELECT '' @ join '', '' (map trim (split CHR '','' ''id, title'')) @ '' FROM''"
    by code_simp
  from rewrite_identity_iff [OF h d] h c show ?thesis by (simp add: group_text_def)
qed

text \<open>
  The claim as stated fails: the projection \<open>id\<close> names no forbidden column, and the
  rewriter returns the query with its keywords in upper case.
\<close>

theorem rewrite_changes_compliant_query:
  "found_in ''id'' = [] \<and>
   hasForbidden (containsForbiddenColumns ''select id from news'') = False \<and>
   sanitizeSQL ''select id from news'' = ''SELECT id FROM news'' \<and>
   sanitizeSQL ''select id from news'' \<noteq> ''select id from news''"
  by code_simp

section \<open>The scenarios on the code\<close>

text \<open>
  Claim C1, on the code. For the first scenario of the specification the detector of either
  tool reports no forbidden column, and the rewriter of either tool returns the query
  unchanged, with \<open>content\<close> still in it: the class \<open>[^from]\<close> stops the projection
  at the \<open>o\<close> of \<open>content\<close>, so the expression has no match in the query.
\<close>

theorem scenario_1_not_flagged:
  "containsForbiddenColumns_gen scenario_1 = \<lparr>hasForbidden = False, forbiddenColumns = []\<rparr> \<and>
   containsForbiddenColumns scenario_1 = \<lparr>hasForbidden = False, forbiddenColumns = []\<rparr> \<and>
   rx_exec re_select_from scenario_1 = None \<and>
   sanitizeSQL_gen scenario_1 = scenario_1 \<and>
   sanitizeSQL scenario_1 = scenario_1 \<and>
   scenario_1 \<noteq> ''SELECT id, title FROM articles ORDER BY published_at DESC LIMIT 10''"
  by code_simp

text \<open>
  Claim C6, on the code. For the second scenario of the specification, where every column
  of the projection is forbidden, the rewriter of either tool returns the query unchanged
  and not the fallback projection.
\<close>

theorem scenario_2_not_rewritten:
  "rx_exec re_select_from scenario_2 = None \<and>
   sanitizeSQL scenario_2 = ''SELECT content, body FROM articles'' \<and>
   sanitizeSQL_gen scenario_2 = ''SELECT content, body FROM articles'' \<and>
   sanitizeSQL scenario_2 \<noteq> ''SELECT id, title, slug, symbol, url, published_at FROM articles''"
  by code_simp

text \<open>A projection of white space only is written back as an empty one.\<close>

lemma empty_projection_example:
  "sanitizeSQL ''select   from t'' = ''SELECT  FROM t''"
  by code_simp

section \<open>The frame of the rewriter\<close>

lemma re_select_from_shape:
  assumes "(l', r', g') \<in> set (rx_run re_select_from (l, r, g))"
  shows "\<exists>a s1 t s2 b. r = a @ s1 @ t @ s2 @ b @ r' \<and>
           list_all2 ci ''select'' a \<and> (\<forall>c \<in> set s1. is_space c) \<and> g' = Some t \<and>
           (\<forall>c \<in> set t. none_of ''from'' c) \<and> (\<forall>c \<in> set s2. is_space c) \<and>
           list_all2 ci ''from'' b"
proof -
  from assms obtain l1 r1 g1 l2 r2 g2 l3 r3 g3 l4 r4 g4 where
    s1: "(l1, r1, g1) \<in> set (rx_run (lit ''select'') (l, r, g))" and
    s2: "(l2, r2, g2) \<in> set (rx_run (Plus is_space) (l1, r1, g1))" and
    s3: "(l3, r3, g3) \<in> set (rx_run (Grp (PlusLazy (none_of ''from''))) (l2, r2, g2))" and
    s4: "(l4, r4, g4) \<in> set (rx_run (Plus is_space) (l3, r3, g3))" and
    s5: "(l', r', g') \<in> set (rx_run (lit ''from'') (l4, r4, g4))"
    unfolding re_select_from_def seqs.simps rx_run_Seq rx_run_Eps by blast
  from rx_run_lit [OF s1] obtain a where a: "r = a @ r1" "list_all2 ci ''select'' a" by blast
  from rx_run_Plus [OF s2] obtain w1 where w1: "r1 = w1 @ r2" "\<forall>c \<in> set w1. is_space c" by blast
  from rx_run_Grp [OF s3] obtain t g0 where
    t: "(l3, r3, g0) \<in> set (rx_run (PlusLazy (none_of ''from'')) (l2, r2, g2))"
       "r2 = t @ r3" "g3 = Some t" by blast
  from rx_run_PlusLazy [OF t(1)] obtain m where
    m: "r2 = m @ r3" "\<forall>c \<in> set m. none_of ''from'' c" by blast
  from m(1) t(2) have tm: "t = m" by simp
  from rx_run_Plus [OF s4] obtain w2 where
    w2: "r3 = w2 @ r4" "\<forall>c \<in> set w2. is_space c" "g4 = g3" by blast
  from rx_run_lit [OF s5] obtain b where
    b: "r4 = b @ r'" "list_all2 ci ''from'' b" "g' = g4" by blast
  have "r = a @ w1 @ t @ w2 @ b @ r'"
    using a(1) w1(1) t(2) w2(1) b(1) by simp
  moreover have "g' = Some t" using b(3) w2(3) t(3) by simp
  ultimately show ?thesis using a(2) w1(2) m(2) tm w2(2) b(2) by blast
qed

lemma select_from_span_shape:
  assumes "rx_exec re_select_from q = Some m"
  shows "\<exists>a s1 s2 b. matched m = a @ s1 @ group_text m @ s2 @ b \<and>
           list_all2 ci ''select'' a \<and> (\<forall>c \<in> set s1. is_space c) \<and>
           (\<forall>c \<in> set (group_text m). none_of ''from'' c) \<and> (\<forall>c \<in> set s2. is_space c) \<and>
           list_all2 ci ''from'' b"
proof -
  from re_select_from_shape [OF rx_exec_Some(2) [OF assms]] obtain a s1 t s2 b where
    sh: "matched m @ after m = a @ s1 @ t @ s2 @ b @ after m"
      "list_all2 ci ''select'' a" "\<forall>c \<in> set s1. is_space c" "group1 m = Some t"
      "\<forall>c \<in> set t. none_of ''from'' c" "\<forall>c \<in> set s2. is_space c" "list_all2 ci ''from'' b"
    by blast
  from sh(1) have "matched m @ after m = (a @ s1 @ t @ s2 @ b) @ after m" by simp
  then have "matched m = a @ s1 @ t @ s2 @ b" by (simp only: append_same_eq)
  moreover from sh(4) have "group_text m = t" by (simp add: group_text_def)
  ultimately show ?thesis using sh(2,3,5,6,7) by blast
qed

lemma sanitize_plain:
  assumes "rx_exec re_select_from q = Some m" and "CHR ''$'' \<notin> set (group_text m)"
  shows "sanitize allowed q =
           before m @ ''SELECT '' @ join '', '' (map trim (split CHR '','' (group_text m))) @
           '' FROM'' @ after m"
proof -
  let ?t = "''SELECT '' @ join '', '' (map trim (split CHR '','' (group_text m))) @ '' FROM''"
  have "CHR ''$'' \<notin> set ?t" using no_dollar_columns [OF assms(2)] by simp
  from getSubstitution_plain [OF this, of "m\<lparr>group1 := None\<rparr>" "[]"]
  have "getSubstitution (m\<lparr>group1 := None\<rparr>) ?t = ?t" by simp
  then show ?thesis unfolding sanitize_match [OF assms(1)] by simp
qed

text \<open>
  The claim C10 as stated fails. In the first query the leading projection holds the
  \<open>r\<close> of \<open>url\<close>, so the first match of the expression lies in the subquery of the
  \<open>WHERE\<close> clause: the first \<open>SELECT ... FROM\<close> span of the query (its first 19
  code units) is left as it is, and the \<open>WHERE\<close> clause behind it changes. In the
  second query the projection list \<open>id\<close> is unchanged and the two keywords change.
\<close>

theorem rewrite_changes_where_clause:
  "take 19 ''SELECT id, url FROM news WHERE id IN (select id from t) ORDER BY id LIMIT 5'' =
     ''SELECT id, url FROM'' \<and>
   sanitizeSQL ''SELECT id, url FROM news WHERE id IN (select id from t) ORDER BY id LIMIT 5'' =
     ''SELECT id, url FROM news WHERE id IN (SELECT id FROM t) ORDER BY id LIMIT 5'' \<and>
   drop 19 (sanitizeSQL ''SELECT id, url FROM news WHERE id IN (select id from t) ORDER BY id LIMIT 5'') \<noteq>
     drop 19 ''SELECT id, url FROM news WHERE id IN (select id from t) ORDER BY id LIMIT 5'' \<and>
   sanitizeSQL ''select id from news where id > 1 order by id limit 5'' =
     ''SELECT id FROM news where id > 1 order by id limit 5''"
  by code_simp

lemma first_select_keyword_shape:
  assumes "first_select_keyword q = Some k"
  shows "q = before k @ matched k @ after k" and "list_all2 ci ''select'' (matched k)"
proof -
  from assms have e: "rx_exec (lit ''select'') q = Some k" by (simp only: first_select_keyword_def)
  from rx_exec_Some(1) [OF e] show "q = before k @ matched k @ after k" .
  from rx_run_lit [OF rx_exec_Some(2) [OF e]] obtain w where
    w: "matched k @ after k = w @ after k" "list_all2 ci ''select'' w" by blast
  from w(1) have "matched k = w" by simp
  with w(2) show "list_all2 ci ''select'' (matched k)" by simp
qed

lemma leading_span_shape:
  assumes "rx_exec re_select_from q = Some m"
    and "first_select_keyword q = Some k" and "before k = before m"
  shows "\<exists>s1 s2 b. matched m = matched k @ s1 @ group_text m @ s2 @ b \<and>
           (\<forall>c \<in> set s1. is_space c) \<and>
           (\<forall>c \<in> set (group_text m). none_of ''from'' c) \<and> (\<forall>c \<in> set s2. is_space c) \<and>
           list_all2 ci ''from'' b"
proof -
  from select_from_span_shape [OF assms(1)] obtain a s1 s2 b where
    sh: "matched m = a @ s1 @ group_text m @ s2 @ b" "list_all2 ci ''select'' a"
      "\<forall>c \<in> set s1. is_space c" "\<forall>c \<in> set (group_text m). none_of ''from'' c"
      "\<forall>c \<in> set s2. is_space c" "list_all2 ci ''from'' b" by blast
  note k = first_select_keyword_shape [OF assms(2)]
  from k(1) rx_exec_Some(1) [OF assms(1)] assms(3)
  have "matched k @ after k = matched m @ after m" by simp
  with sh(1) have "matched k @ after k = a @ (s1 @ group_text m @ s2 @ b @ after m)" by simp
  moreover from k(2) sh(2) have "length (matched k) = length a"
    by (simp add: list_all2_lengthD [symmetric])
  ultimately have "matched k = a" by (metis append_eq_append_conv)
  with sh show ?thesis by blast
qed

text \<open>
  Claim C10, as amended. When the first match \<open>m\<close> of the expression of the rewriter
  starts at the first \<open>SELECT\<close> keyword \<open>k\<close> of the query, the matched span is the
  first \<open>SELECT ... FROM\<close> span of the query: that keyword, white space, a projection
  without \<open>f\<close>, \<open>r\<close>, \<open>o\<close>, \<open>m\<close>, white space, and \<open>FROM\<close>. The query is
  the text before the span, the span and the text after it; the output of the rewriter is
  the same text before, a span \<open>SELECT ... FROM\<close>, and the same text after, so no code
  unit outside the span changes. Inside the span, for a projection without \<open>$\<close>, the
  output has \<open>SELECT\<close>, one space, the trimmed columns joined by a comma and a space,
  one space, and \<open>FROM\<close>: besides the projection list, the case of the keywords and
  the spacing can change. Nothing is said of a query whose first match starts further
  right.
\<close>

theorem rewrite_frame_leading_span:
  assumes "rx_exec re_select_from q = Some m"
    and "first_select_keyword q = Some k" and "before k = before m"
  shows "q = before m @ matched m @ after m \<and>
         (\<exists>s1 s2 b. matched m = matched k @ s1 @ group_text m @ s2 @ b \<and>
            (\<forall>c \<in> set s1. is_space c) \<and>
            (\<forall>c \<in> set (group_text m). none_of ''from'' c) \<and> (\<forall>c \<in> set s2. is_space c) \<and>
            list_all2 ci ''from'' b) \<and>
         (\<exists>p. sanitizeSQL q = before m @ ''SELECT '' @ p @ '' FROM'' @ after m) \<and>
         (\<exists>p. sanitizeSQL_gen q = before m @ ''SELECT '' @ p @ '' FROM'' @ after m) \<and>
         (CHR ''$'' \<notin> set (group_text m) \<longrightarrow>
            sanitizeSQL q =
              before m @ ''SELECT '' @ join '', '' (map trim (split CHR '','' (group_text m))) @
              '' FROM'' @ after m \<and>
            sanitizeSQL_gen q =
              before m @ ''SELECT '' @ join '', '' (map trim (split CHR '','' (group_text m))) @
              '' FROM'' @ after m)"
  using rx_exec_Some(1) [OF assms(1)] leading_span_shape [OF assms]
    sanitize_frame [OF assms(1)] sanitize_plain [OF assms(1)]
  unfolding sanitizeSQL_def sanitizeSQL_gen_def by blast

theorem rewrite_frame_leading_span_witness:
  "rx_exec re_select_from ''select id, title from news where id > 1 order by id limit 5'' =
     Some \<lparr>before = [], matched = ''select id, title from'',
           after = '' news where id > 1 order by id limit 5'', group1 = Some ''id, title''\<rparr> \<and>
   first_select_keyword ''select id, title from news where id > 1 order by id limit 5'' =
     Some \<lparr>before = [], matched = ''select'',
           after = '' id, title from news where id > 1 order by id limit 5'', group1 = None\<rparr> \<and>
   sanitizeSQL ''select id, title from news where id > 1 order by id limit 5'' =
     ''SELECT id, title FROM news where id > 1 order by id limit 5'' \<and>
   sanitizeSQL_gen ''select id, title from news where id > 1 order by id limit 5'' =
     ''SELECT id, title FROM news where id > 1 order by id limit 5''"
proof -
  let ?q = "''select id, title from news where id > 1 order by id limit 5''"
  let ?m = "\<lparr>before = [], matched = ''select id, title from'',
           after = '' news where id > 1 order by id limit 5'', group1 = Some ''id, title''\<rparr>"
  let ?k = "\<lparr>before = [], matched = ''select'',
           after = '' id, title from news where id > 1 order by id limit 5'', group1 = None\<rparr>"
  have h: "rx_exec re_select_from ?q = Some ?m" by code_simp
  have k: "first_select_keyword ?q = Some ?k" by code_simp
  have b: "before ?k = before ?m" by simp
  have d: "CHR ''$'' \<notin> set (group_text ?m)" by (simp add: group_text_def)
  have c: "join '', '' (map trim (split CHR '','' ''id, title'')) = ''id, title''" by code_simp
  note t = rewrite_frame_leading_span [OF h k b]
  from t [THEN conjunct2, THEN conjunct2, THEN conjunct2, THEN conjunct2] d
  have "sanitizeSQL ?q =
      before ?m @ ''SELECT '' @ join '', '' (map trim (split CHR '','' (group_text ?m))) @
      '' FROM'' @ after ?m \<and>
    sanitizeSQL_gen ?q =
      before ?m @ ''SELECT '' @ join '', '' (map trim (split CHR '','' (group_text ?m))) @
      '' FROM'' @ after ?m"
    by (rule mp)
  with h k c show ?thesis by (simp add: group_text_def)
qed

section \<open>Results of the execution gate\<close>

lemma execute_try_plain:
  "execute_try containsForbiddenColumns sanitizeSQL drv q =
     (case connect_fails drv of
        Some msg \<Rightarrow> (failed msg q, [Connect])
      | None \<Rightarrow>
          if \<not> startsWith (toLowerCase (trim q)) ''select''
          then (failed only_select_message q, [Connect])
          else (case executeQuery drv q of
                  Inl msg \<Rightarrow> (failed msg q, [Connect, Query q])
                | Inr rows \<Rightarrow> (succeeded rows q None, [Connect, Query q])))"
  unfolding execute_try_def Let_def by (simp add: detector_never_flags)

lemma execute_try_cases:
  "execute_try containsForbiddenColumns sanitizeSQL drv q = (r, calls) \<Longrightarrow>
     executedQuery r = q \<and> (calls = [Connect] \<or> calls = [Connect, Query q]) \<and>
     (success r \<longleftrightarrow> error r = None)"
  unfolding execute_try_plain
  by (auto simp: failed_def succeeded_def split: option.splits if_splits sum.splits)

lemma execute_built:
  assumes "dbUrl cs env = Some url" and "url \<noteq> []" and "new_client_fails drv url = None"
  shows "execute_with detect rewrite drv cs env q =
           (case end_fails drv of
              None \<Rightarrow> (Returned (fst (execute_try detect rewrite drv q)),
                        snd (execute_try detect rewrite drv q) @ [End])
            | Some msg \<Rightarrow> (Raised msg, snd (execute_try detect rewrite drv q) @ [End]))"
  using assms unfolding execute_with_def by (simp add: case_prod_beta split: option.splits)

lemma execute_not_built:
  "dbUrl cs env = None \<or> dbUrl cs env = Some [] \<Longrightarrow>
     execute_with detect rewrite drv cs env q = (Raised no_connection_message, [])"
  "dbUrl cs env = Some url \<Longrightarrow> url \<noteq> [] \<Longrightarrow> new_client_fails drv url = Some msg \<Longrightarrow>
     execute_with detect rewrite drv cs env q = (Raised msg, [])"
  unfolding execute_with_def by auto





text \<open>
  With a detector that reports a violation, the \<open>catch\<close> branch would report the
  original query after the rewritten one was submitted. With the detector of the source
  this branch is not reached with a rewritten query (lemma \<open>detector_never_flags\<close>).
\<close>

lemma catch_branch_reports_original_query:
  assumes "connect_fails drv = None" and "startsWith (toLowerCase (trim q)) ''select''"
    and "hasForbidden (detect q)" and "query_result drv (rewrite q) = Inl msg"
  shows "execute_try detect rewrite drv q =
           (failed (''Failed to execute query: '' @ msg) q, [Connect, Query (rewrite q)])"
  using assms unfolding execute_try_def Let_def executeQuery_def by simp

section \<open>Raising, and the statement-type rule\<close>

text \<open>
  The claim C3 as stated fails: with no connection string and no
  \<open>NEWS_DATABASE_URL\<close>, \<open>execute\<close> raises.
\<close>

theorem execute_raises_without_connection_string:
  "execute quiet_driver None None ''SELECT 1'' = (Raised no_connection_message, [])"
  by code_simp

lemma detector_outcome:
  "containsForbiddenColumns_outcome q = Returned (containsForbiddenColumns q)"
proof (cases "rx_exec re_from_table (toLowerCase q)")
  case None
  then show ?thesis by (simp add: containsForbiddenColumns_outcome_def)
next
  case (Some m)
  from re_from_table_group [OF Some] obtain t where "group1 m = Some t" by blast
  with Some show ?thesis by (simp add: containsForbiddenColumns_outcome_def)
qed

lemma sanitize_outcome_returns:
  "sanitize_outcome allowed q = Returned (sanitize allowed q)"
proof (cases "rx_exec re_select_from q")
  case None
  then show ?thesis by (simp add: sanitize_outcome_def)
next
  case (Some m)
  from re_select_from_group [OF Some] obtain t where "group1 m = Some t" by blast
  with Some show ?thesis by (simp add: sanitize_outcome_def)
qed

text \<open>
  Claim C3, as amended. With no connection string to use, \<open>execute\<close> raises, with
  no call of the client. With one from which the client cannot be built, \<open>execute\<close>
  raises what the building throws, with no call of the client. With one from which the
  client is built, and when ending the client does not fail, \<open>execute\<close> returns a
  result: it has an \<open>error\<close> exactly when \<open>success\<close> is false, and \<open>success\<close> is
  false exactly when the connection fails, the query does not start with \<open>select\<close>,
  or the database rejects the query. The detector of either tool and the rewriter of
  either tool never raise: they return their value on every string.
\<close>

theorem execute_tagged_result:
  "(dbUrl cs env = None \<or> dbUrl cs env = Some [] \<longrightarrow>
      execute drv cs env q = (Raised no_connection_message, [])) \<and>
   (dbUrl cs env = Some url \<and> url \<noteq> [] \<and> new_client_fails drv url = Some msg \<longrightarrow>
      execute drv cs env q = (Raised msg, [])) \<and>
   (dbUrl cs env = Some url \<and> url \<noteq> [] \<and> new_client_fails drv url = None \<and>
    end_fails drv = None \<longrightarrow>
      (\<exists>r. fst (execute drv cs env q) = Returned r \<and>
           (success r \<longleftrightarrow> error r = None) \<and>
           (success r \<longleftrightarrow>
              connect_fails drv = None \<and> startsWith (toLowerCase (trim q)) ''select'' \<and>
              \<not> isl (query_result drv q)))) \<and>
   containsForbiddenColumns_outcome q = Returned (containsForbiddenColumns q) \<and>
   containsForbiddenColumns_gen_outcome q = Returned (containsForbiddenColumns_gen q) \<and>
   sanitize_outcome ALLOWED_COLUMNS q = Returned (sanitizeSQL q) \<and>
   sanitize_outcome ALLOWED_COLUMNS_gen q = Returned (sanitizeSQL_gen q)"
proof (intro conjI impI)
  assume "dbUrl cs env = None \<or> dbUrl cs env = Some []"
  then show "execute drv cs env q = (Raised no_connection_message, [])"
    unfolding execute_def by (rule execute_not_built(1))
next
  assume "dbUrl cs env = Some url \<and> url \<noteq> [] \<and> new_client_fails drv url = Some msg"
  then have "dbUrl cs env = Some url" "url \<noteq> []" "new_client_fails drv url = Some msg"
    by simp_all
  then show "execute drv cs env q = (Raised msg, [])"
    unfolding execute_def by (rule execute_not_built(2))
next
  assume a: "dbUrl cs env = Some url \<and> url \<noteq> [] \<and> new_client_fails drv url = None \<and>
    end_fails drv = None"
  obtain r calls where t: "execute_try containsForbiddenColumns sanitizeSQL drv q = (r, calls)"
    by (cases "execute_try containsForbiddenColumns sanitizeSQL drv q")
  from a have "execute drv cs env q = (Returned r, calls @ [End])"
    unfolding execute_def using execute_built [of cs env url drv containsForbiddenColumns sanitizeSQL q] t
    by simp
  then have 1: "fst (execute drv cs env q) = Returned r" by simp
  from execute_try_cases [OF t] have 2: "success r \<longleftrightarrow> error r = None" by simp
  from t have 3: "success r \<longleftrightarrow>
      connect_fails drv = None \<and> startsWith (toLowerCase (trim q)) ''select'' \<and>
      \<not> isl (query_result drv q)"
    unfolding execute_try_plain executeQuery_def
    by (auto simp: failed_def succeeded_def split: option.splits if_splits sum.splits)
  from 1 2 3 show "\<exists>r. fst (execute drv cs env q) = Returned r \<and>
           (success r \<longleftrightarrow> error r = None) \<and>
           (success r \<longleftrightarrow>
              connect_fails drv = None \<and> startsWith (toLowerCase (trim q)) ''select'' \<and>
              \<not> isl (query_result drv q))"
    by (intro exI [of _ r] conjI)
next
  show "containsForbiddenColumns_outcome q = Returned (containsForbiddenColumns q)"
    by (rule detector_outcome)
next
  show "containsForbiddenColumns_gen_outcome q = Returned (containsForbiddenColumns_gen q)"
    by (simp add: containsForbiddenColumns_gen_outcome_def)
next
  show "sanitize_outcome ALLOWED_COLUMNS q = Returned (sanitizeSQL q)"
    by (simp add: sanitize_outcome_returns sanitizeSQL_def)
next
  show "sanitize_outcome ALLOWED_COLUMNS_gen q = Returned (sanitizeSQL_gen q)"
    by (simp add: sanitize_outcome_returns sanitizeSQL_gen_def)
qed

theorem execute_tagged_result_witness:
  "execute quiet_driver None (Some []) ''DELETE FROM articles'' = (Raised no_connection_message, []) \<and>
   execute unbuildable_driver (Some ''postgres://db'') None ''DELETE FROM articles'' =
     (Raised ''Invalid URL'', []) \<and>
   (\<exists>r. fst (execute quiet_driver (Some ''postgres://db'') None ''DELETE FROM articles'') = Returned r \<and>
        success r = False \<and> error r \<noteq> None) \<and>
   containsForbiddenColumns_outcome ''DELETE FROM articles'' =
     Returned (containsForbiddenColumns ''DELETE FROM articles'') \<and>
   sanitize_outcome ALLOWED_COLUMNS ''DELETE FROM articles'' =
     Returned (sanitizeSQL ''DELETE FROM articles'')"
proof -
  let ?q = "''DELETE FROM articles''"
  have f: "dbUrl None (Some []) = None \<or> dbUrl None (Some []) = Some []"
    by (simp add: dbUrl_def)
  have v: "dbUrl (Some ''postgres://db'') None = Some ''postgres://db'' \<and> ''postgres://db'' \<noteq> [] \<and>
      new_client_fails unbuildable_driver ''postgres://db'' = Some ''Invalid URL''"
    by (simp add: dbUrl_def unbuildable_driver_def)
  have u: "dbUrl (Some ''postgres://db'') None = Some ''postgres://db'' \<and> ''postgres://db'' \<noteq> [] \<and>
      new_client_fails quiet_driver ''postgres://db'' = None \<and> end_fails quiet_driver = None"
    by (simp add: dbUrl_def quiet_driver_def)
  have n: "\<not> startsWith (toLowerCase (trim ?q)) ''select''" by code_simp
  note a = execute_tagged_result [where cs = None and env = "Some []" and drv = quiet_driver
      and q = ?q]
  note b = execute_tagged_result [where cs = "Some ''postgres://db''" and env = None
      and url = "''postgres://db''" and drv = unbuildable_driver and msg = "''Invalid URL''"
      and q = ?q]
  note c = execute_tagged_result [where cs = "Some ''postgres://db''" and env = None
      and url = "''postgres://db''" and drv = quiet_driver and q = ?q]
  from a [THEN conjunct1] f
  have 1: "execute quiet_driver None (Some []) ?q = (Raised no_connection_message, [])"
    by (rule mp)
  from b [THEN conjunct2, THEN conjunct1] v
  have 2: "execute unbuildable_driver (Some ''postgres://db'') None ?q = (Raised ''Invalid URL'', [])"
    by (rule mp)
  from c [THEN conjunct2, THEN conjunct2, THEN conjunct1] u
  have "\<exists>r. fst (execute quiet_driver (Some ''postgres://db'') None ?q) = Returned r \<and>
      (success r \<longleftrightarrow> error r = None) \<and>
      (success r \<longleftrightarrow> connect_fails quiet_driver = None \<and>
         startsWith (toLowerCase (trim ?q)) ''select'' \<and>
         \<not> isl (query_result quiet_driver ?q))"
    by (rule mp)
  then obtain r where r: "fst (execute quiet_driver (Some ''postgres://db'') None ?q) = Returned r"
    "success r \<longleftrightarrow> error r = None"
    "success r \<longleftrightarrow> connect_fails quiet_driver = None \<and>
       startsWith (toLowerCase (trim ?q)) ''select'' \<and>
       \<not> isl (query_result quiet_driver ?q)"
    by (elim exE conjE)
  from r(3) n have s: "success r = False" by simp
  with r(2) have "error r \<noteq> None" by simp
  with r(1) s have "fst (execute quiet_driver (Some ''postgres://db'') None ?q) = Returned r \<and>
        success r = False \<and> error r \<noteq> None" by (intro conjI)
  then have 3: "\<exists>r. fst (execute quiet_driver (Some ''postgres://db'') None ?q) = Returned r \<and>
        success r = False \<and> error r \<noteq> None" by (rule exI)
  note d = a [THEN conjunct2, THEN conjunct2, THEN conjunct2]
  from 1 2 3 d [THEN conjunct1] d [THEN conjunct2, THEN conjunct2, THEN conjunct1]
  show ?thesis by (intro conjI)
qed

text \<open>
  The claim C5 as stated fails: for a query that does not start with \<open>select\<close> the
  client is connected, and ended, before the query is rejected.
\<close>

theorem non_select_connects_first:
  "\<not> startsWith (toLowerCase (trim ''DELETE FROM articles'')) ''select'' \<and>
   snd (execute quiet_driver (Some ''postgres://db'') None ''DELETE FROM articles'') = [Connect, End]"
  by code_simp

text \<open>
  Claim C5, as amended. A query whose trimmed, lower-case text does not start with
  \<open>select\<close> is rejected without detection, rewriting or execution: the outcome is the
  same for every detector and rewriter, no query is submitted, and every returned result
  has \<open>success = false\<close> and an error. The calls of the client are none (when
  \<open>execute\<close> raises before the \<open>try\<close>) or \<open>connect\<close> and \<open>end\<close>: when the
  client is built from the connection string it is connected first and ended after, and
  when the connection and the ending succeed the error is the one of the statement-type
  rule.
\<close>

theorem non_select_rejected:
  assumes "\<not> startsWith (toLowerCase (trim q)) ''select''"
  shows "execute_with detect rewrite drv cs env q = execute drv cs env q \<and>
         submitted (snd (execute drv cs env q)) = [] \<and>
         (snd (execute drv cs env q) = [] \<or> snd (execute drv cs env q) = [Connect, End]) \<and>
         (\<forall>r. fst (execute drv cs env q) = Returned r \<longrightarrow>
              success r = False \<and> error r \<noteq> None \<and> data r = None) \<and>
         (dbUrl cs env = Some url \<and> url \<noteq> [] \<and> new_client_fails drv url = None \<longrightarrow>
            snd (execute drv cs env q) = [Connect, End]) \<and>
         (dbUrl cs env = Some url \<and> url \<noteq> [] \<and> new_client_fails drv url = None \<and>
          connect_fails drv = None \<and> end_fails drv = None \<longrightarrow>
            fst (execute drv cs env q) = Returned (failed only_select_message q))"
proof -
  have t: "execute_try d w drv q =
      (case connect_fails drv of
         Some msg \<Rightarrow> (failed msg q, [Connect])
       | None \<Rightarrow> (failed only_select_message q, [Connect]))"
    for d w
    using assms unfolding execute_try_def Let_def by (simp split: option.splits)
  have e: "execute_with d w drv cs env q =
      (case dbUrl cs env of
         None \<Rightarrow> (Raised no_connection_message, [])
       | Some u \<Rightarrow>
           if u = [] then (Raised no_connection_message, [])
           else
             (case new_client_fails drv u of
                Some msg \<Rightarrow> (Raised msg, [])
              | None \<Rightarrow>
                  (case end_fails drv of
                     None \<Rightarrow>
                       (Returned (case connect_fails drv of
                                    Some msg \<Rightarrow> failed msg q
                                  | None \<Rightarrow> failed only_select_message q),
                        [Connect, End])
                   | Some msg \<Rightarrow> (Raised msg, [Connect, End]))))"
    for d w
    unfolding execute_with_def t by (simp split: option.splits)
  have 1: "execute_with detect rewrite drv cs env q = execute drv cs env q"
    unfolding execute_def e ..
  have 2: "snd (execute drv cs env q) = [] \<or> snd (execute drv cs env q) = [Connect, End]"
    unfolding execute_def e by (simp split: option.splits)
  then have 3: "submitted (snd (execute drv cs env q)) = []" by auto
  have 4: "\<forall>r. fst (execute drv cs env q) = Returned r \<longrightarrow>
              success r = False \<and> error r \<noteq> None \<and> data r = None"
    unfolding execute_def e by (auto simp: failed_def split: option.splits if_splits)
  have 5: "dbUrl cs env = Some url \<and> url \<noteq> [] \<and> new_client_fails drv url = None \<longrightarrow>
            snd (execute drv cs env q) = [Connect, End]"
    unfolding execute_def e by (simp split: option.splits)
  have 6: "dbUrl cs env = Some url \<and> url \<noteq> [] \<and> new_client_fails drv url = None \<and>
          connect_fails drv = None \<and> end_fails drv = None \<longrightarrow>
            fst (execute drv cs env q) = Returned (failed only_select_message q)"
    unfolding execute_def e by simp
  from 1 3 2 4 5 6 show ?thesis by (intro conjI)
qed

theorem non_select_rejected_witness:
  "\<not> startsWith (toLowerCase (trim ''DELETE FROM articles'')) ''select'' \<and>
   execute_with (\<lambda>_. \<lparr>hasForbidden = True, forbiddenColumns = [''content'']\<rparr>) (\<lambda>_. ''SELECT 1'')
       quiet_driver (Some ''postgres://db'') None ''DELETE FROM articles'' =
     execute quiet_driver (Some ''postgres://db'') None ''DELETE FROM articles'' \<and>
   snd (execute quiet_driver (Some ''postgres://db'') None ''DELETE FROM articles'') = [Connect, End] \<and>
   submitted (snd (execute quiet_driver (Some ''postgres://db'') None ''DELETE FROM articles'')) = [] \<and>
   fst (execute quiet_driver (Some ''postgres://db'') None ''DELETE FROM articles'') =
     Returned (failed only_select_message ''DELETE FROM articles'')"
proof -
  have n: "\<not> startsWith (toLowerCase (trim ''DELETE FROM articles'')) ''select''" by code_simp
  have u: "dbUrl (Some ''postgres://db'') None = Some ''postgres://db'' \<and> ''postgres://db'' \<noteq> [] \<and>
      new_client_fails quiet_driver ''postgres://db'' = None \<and>
      connect_fails quiet_driver = None \<and> end_fails quiet_driver = None"
    by (simp add: dbUrl_def quiet_driver_def)
  from non_select_rejected [OF n,
      where detect = "\<lambda>_. \<lparr>hasForbidden = True, forbiddenColumns = [''content'']\<rparr>"
        and rewrite = "\<lambda>_. ''SELECT 1''" and drv = quiet_driver
        and cs = "Some ''postgres://db''" and env = None and url = "''postgres://db''"] n u
  show ?thesis by simp
qed

end
